theory Spec2Isabelle
  imports Complex_Main "HOL-Library.Multiset" "HOL-Library.Product_Lexorder"
begin

section \<open>Text: Python strings and the character tables\<close>

text \<open>
  A Python \<open>str\<close> is a sequence of Unicode code points; it is modelled as a list of
  natural numbers. Coordinates are Python floats and are modelled as real numbers
  (the code only compares them, takes minima and maxima, and forms one difference
  and one product by 0.5).

  The Unicode property tables of the Python runtime (\<open>str.isspace\<close> and the regex
  class \<open>\s\<close>, the regex class \<open>\d\<close>, \<open>str.islower\<close>, the regex class \<open>\w\<close> behind
  \<open>\b\<close>, and \<open>str.lower\<close>) are not part of the repository. Every function that
  consults them takes them as its first argument \<open>U\<close>.
\<close>

type_synonym pystr = "nat list"

definition str :: "string \<Rightarrow> pystr" where
  "str s = map of_char s"

record unicode =
  isspace :: "nat \<Rightarrow> bool"
  isdecimal :: "nat \<Rightarrow> bool"
  islower :: "nat \<Rightarrow> bool"
  isword :: "nat \<Rightarrow> bool"
  lower :: "pystr \<Rightarrow> pystr"

text \<open>The tables restricted to ASCII, for evaluating the functions on ASCII text.\<close>

definition ascii :: unicode where
  "ascii = \<lparr> isspace = (\<lambda>c. (9 \<le> c \<and> c \<le> 13) \<or> (28 \<le> c \<and> c \<le> 32)),
             isdecimal = (\<lambda>c. 48 \<le> c \<and> c \<le> 57),
             islower = (\<lambda>c. 97 \<le> c \<and> c \<le> 122),
             isword = (\<lambda>c. (48 \<le> c \<and> c \<le> 57) \<or> (65 \<le> c \<and> c \<le> 90) \<or> c = 95
                          \<or> (97 \<le> c \<and> c \<le> 122)),
             lower = map (\<lambda>c. if 65 \<le> c \<and> c \<le> 90 then c + 32 else c) \<rparr>"

definition lstrip :: "unicode \<Rightarrow> pystr \<Rightarrow> pystr" where
  "lstrip U s = dropWhile (isspace U) s"

definition rstrip :: "unicode \<Rightarrow> pystr \<Rightarrow> pystr" where
  "rstrip U s = rev (dropWhile (isspace U) (rev s))"

definition strip :: "unicode \<Rightarrow> pystr \<Rightarrow> pystr" where
  "strip U s = rstrip U (lstrip U s)"

text \<open>\<open>s.endswith(c)\<close> for a one-character string \<open>c\<close>.\<close>

definition endswith :: "pystr \<Rightarrow> nat \<Rightarrow> bool" where
  "endswith s c = (s \<noteq> [] \<and> last s = c)"

definition startswith :: "pystr \<Rightarrow> pystr \<Rightarrow> bool" where
  "startswith s p = (take (length p) s = p)"

text \<open>\<open>p in s\<close>: \<open>p\<close> occurs in \<open>s\<close> at some offset.\<close>

definition contains :: "pystr \<Rightarrow> pystr \<Rightarrow> bool" where
  "contains s p = list_ex (\<lambda>i. startswith (drop i s) p) [0..<Suc (length s)]"

text \<open>\<open>sep.join(xs)\<close>.\<close>

fun join :: "pystr \<Rightarrow> pystr list \<Rightarrow> pystr" where
  "join sep [] = []"
| "join sep [x] = x"
| "join sep (x # y # ys) = x @ sep @ join sep (y # ys)"

text \<open>
  \<open>re.sub(r"\s+", " ", s)\<close>: every maximal run of whitespace becomes one space. The flag
  says that the scan is inside a run whose space has already been emitted.
\<close>

fun sub_ws :: "unicode \<Rightarrow> bool \<Rightarrow> pystr \<Rightarrow> pystr" where
  "sub_ws U in_run [] = []"
| "sub_ws U in_run (c # cs) =
     (if isspace U c then (if in_run then sub_ws U True cs else 32 # sub_ws U True cs)
      else c # sub_ws U False cs)"

definition norm_space :: "unicode \<Rightarrow> pystr \<Rightarrow> pystr" where
  "norm_space U s = strip U (sub_ws U False s)"

text \<open>
  A regular expression \<open>P+K\<close> anchored at the head of the string, where \<open>P\<close> is a
  character class and \<open>K\<close> the rest of the pattern: the backtracking matcher finds a
  match iff some non-empty run of \<open>P\<close> characters is followed by a match of \<open>K\<close>.
\<close>

fun plus_then :: "(nat \<Rightarrow> bool) \<Rightarrow> (pystr \<Rightarrow> bool) \<Rightarrow> pystr \<Rightarrow> bool" where
  "plus_then P K [] = False"
| "plus_then P K (c # cs) = (P c \<and> (K cs \<or> plus_then P K cs))"

text \<open>\<open>\s+\<close> at the end of a pattern: the head of the string is whitespace.\<close>

definition ws1 :: "unicode \<Rightarrow> pystr \<Rightarrow> bool" where
  "ws1 U s = (case s of [] \<Rightarrow> False | c # _ \<Rightarrow> isspace U c)"

section \<open>Boilerplate filter\<close>

text \<open>\<open>\b\<close> at offset \<open>i\<close>: exactly one of the characters on either side is a word character.\<close>

definition word_at :: "unicode \<Rightarrow> pystr \<Rightarrow> nat \<Rightarrow> bool" where
  "word_at U s i = (i < length s \<and> isword U (s ! i))"

definition boundary :: "unicode \<Rightarrow> pystr \<Rightarrow> nat \<Rightarrow> bool" where
  "boundary U s i = ((0 < i \<and> word_at U s (i - 1)) \<noteq> word_at U s i)"

text \<open>\<open>re.search(r"\b\d+\b", s)\<close>.\<close>

definition standalone_int :: "unicode \<Rightarrow> pystr \<Rightarrow> bool" where
  "standalone_int U s =
     list_ex (\<lambda>i. boundary U s i \<and>
                list_ex (\<lambda>j. list_all (isdecimal U) (take (j - i) (drop i s)) \<and> boundary U s j)
                  [Suc i..<Suc (length s)])
       [0..<length s]"

definition is_likely_header_footer :: "unicode \<Rightarrow> pystr \<Rightarrow> bool" where
  "is_likely_header_footer U line =
     (let s = lower U (norm_space U line) in
      if s \<noteq> [] \<and> list_all (isdecimal U) s then True
      else if contains s (str ''future of jobs report'') \<and> standalone_int U s then True
      else if startswith s (str ''january 2025'') \<and> contains s (str ''future of jobs report'')
        then True
      else False)"

section \<open>Paragraph merger: the two decisions\<close>

definition merge_hyphenation :: "unicode \<Rightarrow> pystr \<Rightarrow> pystr \<Rightarrow> pystr \<times> pystr \<times> bool" where
  "merge_hyphenation U prev nxt =
     (if endswith prev 45 \<and> nxt \<noteq> [] \<and> islower U (hd nxt) then (butlast prev, nxt, True)
      else (prev, nxt, False))"

text \<open>
  \<open>re.match\<close> of the bullet pattern: one of the code points U+2022 (bullet), \<open>-\<close>,
  U+2013 (en dash), \<open>*\<close>, or the sub-pattern \<open>\d+\.\<close> (46 is the full stop), followed
  by \<open>\s+\<close>.
\<close>

definition bullet_re :: "unicode \<Rightarrow> pystr \<Rightarrow> bool" where
  "bullet_re U s =
     ((case s of [] \<Rightarrow> False | c # cs \<Rightarrow> c \<in> {8226, 45, 8211, 42} \<and> ws1 U cs)
      \<or> plus_then (isdecimal U) (\<lambda>r. case r of [] \<Rightarrow> False | d # r' \<Rightarrow> d = 46 \<and> ws1 U r') s)"

text \<open>\<open>re.match(r"^[A-Z][A-Z\s]{3,}$", s)\<close>; \<open>$\<close> matches at the end of the string and
  before a newline that ends the string.\<close>

definition upper_az :: "nat \<Rightarrow> bool" where
  "upper_az c = (65 \<le> c \<and> c \<le> 90)"

definition heading_body :: "unicode \<Rightarrow> pystr \<Rightarrow> bool" where
  "heading_body U r = (3 \<le> length r \<and> list_all (\<lambda>c. upper_az c \<or> isspace U c) r)"

definition heading_re :: "unicode \<Rightarrow> pystr \<Rightarrow> bool" where
  "heading_re U s =
     (case s of [] \<Rightarrow> False
      | c # r \<Rightarrow> upper_az c \<and>
          (heading_body U r \<or> (r \<noteq> [] \<and> last r = 10 \<and> heading_body U (butlast r))))"

text \<open>\<open>re.match(r"^(figure|table|box)\s+\d", s)\<close>.\<close>

definition caption_re :: "unicode \<Rightarrow> pystr \<Rightarrow> bool" where
  "caption_re U s =
     list_ex (\<lambda>p. startswith s p \<and>
                plus_then (isspace U) (\<lambda>r. case r of [] \<Rightarrow> False | d # _ \<Rightarrow> isdecimal U d)
                  (drop (length p) s))
       [str ''figure'', str ''table'', str ''box'']"

definition should_join_with_space :: "unicode \<Rightarrow> pystr \<Rightarrow> pystr \<Rightarrow> bool" where
  "should_join_with_space U prev nxt =
     (let prev_s = rstrip U prev; nxt_s = lstrip U nxt in
      if prev_s = [] then False
      else if bullet_re U nxt_s then False
      else if heading_re U nxt_s then False
      else if caption_re U (lower U nxt_s) then False
      else if endswith prev_s 46 \<or> endswith prev_s 33 \<or> endswith prev_s 63 \<or> endswith prev_s 58
        then False
      else True)"

section \<open>Tokens, rows, segments and lines\<close>

text \<open>A word token of the token source: the keys of the dictionary that the code reads.\<close>

record token =
  w_text :: pystr
  w_x0 :: real
  w_x1 :: real
  w_top :: real

datatype kind = Single | Full | Left | Right

record line =
  ln_y :: real
  ln_x0 :: real
  ln_x1 :: real
  ln_text :: pystr
  ln_kind :: kind

datatype error = TypeError | ValueError

text \<open>
  The loop of \<open>split_by_gutter_gap\<close>, with its two variables \<open>segments\<close> and
  \<open>current\<close>; \<open>current\<close> is never empty, so \<open>current[-1]\<close> is its last element.
\<close>

fun gap_loop :: "real \<Rightarrow> token list \<Rightarrow> token list list \<Rightarrow> token list
                 \<Rightarrow> token list list \<times> token list" where
  "gap_loop min_gap [] segments current = (segments, current)"
| "gap_loop min_gap (w # ws) segments current =
     (if w_x0 w - w_x1 (last current) \<ge> min_gap
      then gap_loop min_gap ws (segments @ [current]) [w]
      else gap_loop min_gap ws segments (current @ [w]))"

definition split_by_gutter_gap :: "token list \<Rightarrow> real \<Rightarrow> token list list" where
  "split_by_gutter_gap words_in_row min_gap =
     (case words_in_row of [] \<Rightarrow> []
      | w # ws \<Rightarrow> (case gap_loop min_gap ws [] [w] of (segments, current) \<Rightarrow> segments @ [current]))"

text \<open>
  The row-grouping loop of \<open>words_to_lines\<close>, with its variables \<open>rows\<close>,
  \<open>current_row\<close> and \<open>current_y\<close>.
\<close>

fun row_loop :: "real \<Rightarrow> token list \<Rightarrow> token list list \<Rightarrow> token list \<Rightarrow> real
                 \<Rightarrow> token list list \<times> token list" where
  "row_loop y_tol [] rows current_row current_y = (rows, current_row)"
| "row_loop y_tol (w # ws) rows current_row current_y =
     (if \<bar>w_top w - current_y\<bar> \<le> y_tol
      then row_loop y_tol ws rows (current_row @ [w]) current_y
      else row_loop y_tol ws (rows @ [current_row]) [w] (w_top w))"

definition group_rows :: "token list \<Rightarrow> real \<Rightarrow> token list list" where
  "group_rows words y_tol =
     (case sort_key (\<lambda>w. (w_top w, w_x0 w)) words of [] \<Rightarrow> []
      | w0 # ws \<Rightarrow>
         (case row_loop y_tol (w0 # ws) [] [] (w_top w0) of
            (rows, current_row) \<Rightarrow> if current_row \<noteq> [] then rows @ [current_row] else rows))"

text \<open>All segments of the page, row by row: the segments the two nested loops visit.\<close>

definition page_segments :: "token list \<Rightarrow> real \<Rightarrow> token list list" where
  "page_segments words y_tol =
     concat (map (\<lambda>row. split_by_gutter_gap (sort_key w_x0 row) 25) (group_rows words y_tol))"

text \<open>The body of the inner loop: one line per segment. \<open>min\<close> and \<open>max\<close> of an empty
  sequence raise \<open>ValueError\<close>.\<close>

fun line_of_segment :: "unicode \<Rightarrow> token list \<Rightarrow> error + line" where
  "line_of_segment U [] = Inl ValueError"
| "line_of_segment U (w # ws) =
     Inr \<lparr> ln_y = fold min (map w_top ws) (w_top w),
           ln_x0 = fold min (map w_x0 ws) (w_x0 w),
           ln_x1 = fold max (map w_x1 ws) (w_x1 w),
           ln_text = norm_space U (join [32] (map w_text (w # ws))),
           ln_kind = Single \<rparr>"

text \<open>Running a loop body over a list: the first exception ends the loop.\<close>

fun collect :: "(error + 'a) list \<Rightarrow> error + 'a list" where
  "collect [] = Inr []"
| "collect (Inl e # rs) = Inl e"
| "collect (Inr x # rs) = (case collect rs of Inl e \<Rightarrow> Inl e | Inr xs \<Rightarrow> Inr (x # xs))"

text \<open>
  The tolerance argument as Python sees it: a number, or a value of another type, on
  which the comparison \<open>abs(...) <= y_tol\<close> raises \<open>TypeError\<close>.
\<close>

datatype pyval = Num real | NonNumeric

definition words_to_lines :: "unicode \<Rightarrow> token list \<Rightarrow> pyval \<Rightarrow> error + line list" where
  "words_to_lines U words y_tol =
     (if words = [] then Inr []
      else case y_tol of NonNumeric \<Rightarrow> Inl TypeError
           | Num t \<Rightarrow> collect (map (line_of_segment U) (page_segments words t)))"

section \<open>Column classifier and reading order\<close>

definition classify_columns :: "line list \<Rightarrow> real \<Rightarrow> real \<Rightarrow> line list" where
  "classify_columns lines page_width gutter_ratio =
     (let mid = page_width * gutter_ratio in
      map (\<lambda>l. if ln_x0 l < mid \<and> mid < ln_x1 l then l\<lparr>ln_kind := Full\<rparr>
                 else l\<lparr>ln_kind := (if ln_x1 l \<le> mid then Left else Right)\<rparr>) lines)"

text \<open>The list \<open>ordered\<close> of \<open>reconstruct_page_text\<close>; Python's \<open>sorted\<close> is stable.\<close>

definition ordered :: "line list \<Rightarrow> line list" where
  "ordered lines =
     sort_key ln_y (filter (\<lambda>l. ln_kind l = Full) lines)
     @ sort_key ln_y (filter (\<lambda>l. ln_kind l = Left) lines)
     @ sort_key ln_y (filter (\<lambda>l. ln_kind l = Right) lines)"

text \<open>The filtering loop: the texts handed to the paragraph merger.\<close>

fun filtered :: "unicode \<Rightarrow> bool \<Rightarrow> line list \<Rightarrow> pystr list" where
  "filtered U drop_headers_footers [] = []"
| "filtered U drop_headers_footers (l # ls) =
     (if ln_text l = [] then filtered U drop_headers_footers ls
      else if drop_headers_footers \<and> is_likely_header_footer U (ln_text l)
        then filtered U drop_headers_footers ls
      else ln_text l # filtered U drop_headers_footers ls)"

section \<open>Paragraph merger\<close>

text \<open>
  One iteration of the merging loop on the accumulator \<open>out_lines\<close> and the current
  text. Every branch of the loop advances the index by one, so the loop is a left to
  right pass over \<open>filtered\<close>.
\<close>

definition merge_step :: "unicode \<Rightarrow> pystr list \<Rightarrow> pystr \<Rightarrow> pystr list" where
  "merge_step U out_lines cur =
     (if out_lines = [] then [cur]
      else let prev = last out_lines in
        (case merge_hyphenation U prev cur of
           (prev2, cur2, did_merge) \<Rightarrow>
             if did_merge then butlast out_lines @ [prev2 @ cur2]
             else if should_join_with_space U prev cur
               then butlast out_lines @ [rstrip U prev @ [32] @ lstrip U cur]
             else out_lines @ [cur]))"

fun merge_loop :: "unicode \<Rightarrow> pystr list \<Rightarrow> pystr list \<Rightarrow> pystr list" where
  "merge_loop U out_lines [] = out_lines"
| "merge_loop U out_lines (cur # rest) = merge_loop U (merge_step U out_lines cur) rest"

section \<open>Page reconstructor and document extractor\<close>

text \<open>
  A page of the token source: its number, its dimensions and the words that
  \<open>extract_words\<close> returns for it. \<open>Page.crop\<close> belongs to the token source as well and
  is a parameter: it returns the cropped page or raises.
\<close>

record page =
  pg_number :: int
  pg_width :: real
  pg_height :: real
  pg_words :: "token list"

type_synonym bbox = "real \<times> real \<times> real \<times> real"

type_synonym crop_fn = "page \<Rightarrow> bbox \<Rightarrow> error + page"

record page_record =
  rec_page_number :: int
  rec_width :: real
  rec_height :: real
  rec_text :: pystr
  rec_line_count :: nat

definition cropped :: "crop_fn \<Rightarrow> page \<Rightarrow> real \<Rightarrow> real \<Rightarrow> error + page" where
  "cropped crop pg crop_top crop_bottom =
     (if crop_top \<noteq> 0 \<or> crop_bottom \<noteq> 0
      then crop pg (0, crop_top, pg_width pg, pg_height pg - crop_bottom)
      else Inr pg)"

definition reconstruct_page_text ::
  "unicode \<Rightarrow> crop_fn \<Rightarrow> page \<Rightarrow> pyval \<Rightarrow> bool \<Rightarrow> real \<Rightarrow> real \<Rightarrow> error + page_record" where
  "reconstruct_page_text U crop pg y_tol drop_headers_footers crop_top crop_bottom =
     (case cropped crop pg crop_top crop_bottom of
        Inl e \<Rightarrow> Inl e
      | Inr p \<Rightarrow>
         (case words_to_lines U (pg_words p) y_tol of
            Inl e \<Rightarrow> Inl e
          | Inr lines \<Rightarrow>
             (let out_lines =
                    merge_loop U []
                      (filtered U drop_headers_footers
                         (ordered (classify_columns lines (pg_width p) 0.5)))
              in Inr \<lparr> rec_page_number = pg_number pg,
                       rec_width = pg_width pg,
                       rec_height = pg_height pg,
                       rec_text = strip U (join [10] out_lines),
                       rec_line_count = length out_lines \<rparr>)))"








text \<open>
  A sample token source for evaluating the extractor: its crop rejects a box that does
  not lie inside the page with positive width and height, and otherwise keeps the words
  whose top edge lies inside the box.
\<close>

definition box_crop :: crop_fn where
  "box_crop pg b =
     (case b of (bx0, btop, bx1, bbottom) \<Rightarrow>
        if 0 \<le> bx0 \<and> bx0 < bx1 \<and> bx1 \<le> pg_width pg \<and> 0 \<le> btop \<and> btop < bbottom
           \<and> bbottom \<le> pg_height pg
        then Inr (pg\<lparr>pg_width := bx1 - bx0, pg_height := bbottom - btop,
                     pg_words := filter (\<lambda>w. btop \<le> w_top w \<and> w_top w \<le> bbottom) (pg_words pg)\<rparr>)
        else Inl ValueError)"

section \<open>The conditions of the join decision, stated on the text\<close>

text \<open>The text is empty or all whitespace.\<close>

definition blank :: "unicode \<Rightarrow> pystr \<Rightarrow> bool" where
  "blank U s = (\<forall>c\<in>set s. isspace U c)"

text \<open>
  The text starts with a bullet (U+2022), a hyphen, an en dash (U+2013) or an asterisk,
  or with decimal digits and a full stop; and a whitespace character follows.
\<close>

definition marker_then_space :: "unicode \<Rightarrow> pystr \<Rightarrow> bool" where
  "marker_then_space U s =
     ((\<exists>m w rest. s = m # w # rest \<and> m \<in> {8226, 45, 8211, 42} \<and> isspace U w) \<or>
      (\<exists>ds w rest. ds \<noteq> [] \<and> (\<forall>d\<in>set ds. isdecimal U d) \<and> s = ds @ 46 # w # rest
         \<and> isspace U w))"

text \<open>
  The same without the whitespace: the text starts with one of the four marker
  characters or with decimal digits and a full stop.
\<close>

definition starts_with_marker :: "unicode \<Rightarrow> pystr \<Rightarrow> bool" where
  "starts_with_marker U s =
     ((\<exists>m rest. s = m # rest \<and> m \<in> {8226, 45, 8211, 42}) \<or>
      (\<exists>ds rest. ds \<noteq> [] \<and> (\<forall>d\<in>set ds. isdecimal U d) \<and> s = ds @ 46 # rest))"

text \<open>
  A capital letter A to Z followed by at least three characters, each a capital letter
  A to Z or whitespace; a final newline after them is allowed.
\<close>

definition shouty_heading :: "unicode \<Rightarrow> pystr \<Rightarrow> bool" where
  "shouty_heading U s =
     (\<exists>c r. upper_az c \<and> 3 \<le> length r \<and> (\<forall>x\<in>set r. upper_az x \<or> isspace U x) \<and>
            (s = c # r \<or> s = c # r @ [10]))"

text \<open>One of the words figure, table, box, then whitespace, then a decimal digit.\<close>

definition numbered_caption :: "unicode \<Rightarrow> pystr \<Rightarrow> bool" where
  "numbered_caption U s =
     (\<exists>p\<in>{str ''figure'', str ''table'', str ''box''}. \<exists>ws d rest.
        ws \<noteq> [] \<and> (\<forall>c\<in>set ws. isspace U c) \<and> isdecimal U d \<and> s = p @ ws @ d # rest)"

text \<open>The text ends with a full stop, an exclamation mark, a question mark or a colon.\<close>

definition ends_sentence :: "pystr \<Rightarrow> bool" where
  "ends_sentence s = (\<exists>r c. s = r @ [c] \<and> c \<in> {46, 33, 63, 58})"

text \<open>A text that is not empty and neither starts nor ends with whitespace.\<close>

definition solid :: "unicode \<Rightarrow> pystr \<Rightarrow> bool" where
  "solid U t = (t \<noteq> [] \<and> \<not> isspace U (hd t) \<and> \<not> isspace U (last t))"

section \<open>Column classification\<close>

text \<open>
  Claim C2. The classifier returns the lines in the same order, changing nothing but the
  kind. With \<open>mid = page_width * gutter_ratio\<close>, the kind is \<open>Full\<close> exactly when
  \<open>x0 < mid < x1\<close>; otherwise it is \<open>Left\<close> when \<open>x1 \<le> mid\<close> and \<open>Right\<close> when not. A line
  spanning 100 to 500 on a page of width 600 with ratio 0.5 is \<open>Full\<close>.
\<close>

theorem classify_columns_rule:
  "length (classify_columns lines w r) = length lines \<and>
   (\<forall>i<length lines.
      let l = lines ! i; c = classify_columns lines w r ! i; mid = w * r in
        c = l\<lparr>ln_kind := ln_kind c\<rparr> \<and>
        (ln_kind c = Full \<longleftrightarrow> ln_x0 l < mid \<and> mid < ln_x1 l) \<and>
        (ln_kind c = Left \<longleftrightarrow> \<not> (ln_x0 l < mid \<and> mid < ln_x1 l) \<and> ln_x1 l \<le> mid) \<and>
        (ln_kind c = Right \<longleftrightarrow> \<not> (ln_x0 l < mid \<and> mid < ln_x1 l) \<and> \<not> ln_x1 l \<le> mid)) \<and>
   classify_columns [\<lparr>ln_y = y, ln_x0 = 100, ln_x1 = 500, ln_text = t, ln_kind = k\<rparr>] 600 0.5
     = [\<lparr>ln_y = y, ln_x0 = 100, ln_x1 = 500, ln_text = t, ln_kind = Full\<rparr>]"
  by (simp add: classify_columns_def Let_def)

theorem classify_columns_rule_witness:
  "ln_kind (classify_columns
     [\<lparr>ln_y = 10, ln_x0 = 50, ln_x1 = 300, ln_text = str ''a'', ln_kind = Single\<rparr>,
      \<lparr>ln_y = 5, ln_x0 = 100, ln_x1 = 500, ln_text = str ''b'', ln_kind = Single\<rparr>,
      \<lparr>ln_y = 7, ln_x0 = 300, ln_x1 = 550, ln_text = str ''c'', ln_kind = Single\<rparr>] 600 0.5 ! 1)
   = Full"
  using classify_columns_rule [of
     "[\<lparr>ln_y = 10, ln_x0 = 50, ln_x1 = 300, ln_text = str ''a'', ln_kind = Single\<rparr>,
      \<lparr>ln_y = 5, ln_x0 = 100, ln_x1 = 500, ln_text = str ''b'', ln_kind = Single\<rparr>,
      \<lparr>ln_y = 7, ln_x0 = 300, ln_x1 = 550, ln_text = str ''c'', ln_kind = Single\<rparr>]" 600 "0.5",
     THEN conjunct2, THEN conjunct1, THEN spec, of 1]
  by (simp add: Let_def)

section \<open>Reading order\<close>

lemma ordered_buckets:
  "filter (\<lambda>l. ln_kind l = Full) (ordered lines) = sort_key ln_y (filter (\<lambda>l. ln_kind l = Full) lines)"
  "filter (\<lambda>l. ln_kind l = Left) (ordered lines) = sort_key ln_y (filter (\<lambda>l. ln_kind l = Left) lines)"
  "filter (\<lambda>l. ln_kind l = Right) (ordered lines) = sort_key ln_y (filter (\<lambda>l. ln_kind l = Right) lines)"
  by (simp_all add: ordered_def filter_sort)

lemma ordered_split:
  "ordered lines = filter (\<lambda>l. ln_kind l = Full) (ordered lines)
     @ filter (\<lambda>l. ln_kind l = Left) (ordered lines)
     @ filter (\<lambda>l. ln_kind l = Right) (ordered lines)"
  unfolding ordered_buckets by (simp add: ordered_def)

lemma full_prefix:
  assumes "i < length (ordered lines)" "j < length (ordered lines)"
    "ln_kind (ordered lines ! i) = Full" "ln_kind (ordered lines ! j) \<noteq> Full"
  shows "i < j"
proof -
  define F where "F = sort_key ln_y (filter (\<lambda>l. ln_kind l = Full) lines)"
  define R where "R = sort_key ln_y (filter (\<lambda>l. ln_kind l = Left) lines)
     @ sort_key ln_y (filter (\<lambda>l. ln_kind l = Right) lines)"
  have o: "ordered lines = F @ R" by (simp add: ordered_def F_def R_def)
  have F: "\<forall>l\<in>set F. ln_kind l = Full" by (auto simp: F_def)
  have R: "\<forall>l\<in>set R. ln_kind l \<noteq> Full" by (auto simp: R_def)
  have "i < length F"
  proof (rule ccontr)
    assume "\<not> i < length F"
    then have "ordered lines ! i = R ! (i - length F)" "i - length F < length R"
      using assms(1) by (auto simp: o nth_append)
    then show False using R assms(3) by (metis nth_mem)
  qed
  moreover have "\<not> j < length F"
  proof
    assume "j < length F"
    then have "ordered lines ! j \<in> set F" by (simp add: o nth_append)
    then show False using F assms(4) by blast
  qed
  ultimately show ?thesis by simp
qed

text \<open>
  Claim C1. In the sequencer output every \<open>Full\<close> line comes before every line of another
  kind, whatever their \<open>y\<close>. The output is its \<open>Full\<close> lines, then its \<open>Left\<close> lines, then
  its \<open>Right\<close> lines; each bucket is ascending in \<open>y\<close>; lines of one bucket with the same
  \<open>y\<close> keep the order in which they were met; and the output holds exactly the classified
  lines of the input.
\<close>

theorem reading_order:
  "(\<forall>i<length (ordered lines). \<forall>j<length (ordered lines).
      ln_kind (ordered lines ! i) = Full \<and> ln_kind (ordered lines ! j) \<noteq> Full \<longrightarrow> i < j) \<and>
   ordered lines = filter (\<lambda>l. ln_kind l = Full) (ordered lines)
     @ filter (\<lambda>l. ln_kind l = Left) (ordered lines)
     @ filter (\<lambda>l. ln_kind l = Right) (ordered lines) \<and>
   (\<forall>k. sorted (map ln_y (filter (\<lambda>l. ln_kind l = k) (ordered lines)))) \<and>
   (\<forall>k\<in>{Full, Left, Right}. \<forall>v.
      filter (\<lambda>l. ln_y l = v) (filter (\<lambda>l. ln_kind l = k) (ordered lines))
        = filter (\<lambda>l. ln_y l = v) (filter (\<lambda>l. ln_kind l = k) lines)) \<and>
   mset (ordered lines) = mset (filter (\<lambda>l. ln_kind l \<noteq> Single) lines)"
proof (intro conjI)
  show "\<forall>i<length (ordered lines). \<forall>j<length (ordered lines).
      ln_kind (ordered lines ! i) = Full \<and> ln_kind (ordered lines ! j) \<noteq> Full \<longrightarrow> i < j"
    using full_prefix by blast
  show "ordered lines = filter (\<lambda>l. ln_kind l = Full) (ordered lines)
     @ filter (\<lambda>l. ln_kind l = Left) (ordered lines)
     @ filter (\<lambda>l. ln_kind l = Right) (ordered lines)"
    by (rule ordered_split)
  show "\<forall>k. sorted (map ln_y (filter (\<lambda>l. ln_kind l = k) (ordered lines)))"
  proof
    fix k
    show "sorted (map ln_y (filter (\<lambda>l. ln_kind l = k) (ordered lines)))"
      by (cases k) (simp_all add: ordered_buckets, simp add: ordered_def)
  qed
  show "\<forall>k\<in>{Full, Left, Right}. \<forall>v.
      filter (\<lambda>l. ln_y l = v) (filter (\<lambda>l. ln_kind l = k) (ordered lines))
        = filter (\<lambda>l. ln_y l = v) (filter (\<lambda>l. ln_kind l = k) lines)"
    by (auto simp del: filter_filter simp add: ordered_buckets sort_key_stable)
  show "mset (ordered lines) = mset (filter (\<lambda>l. ln_kind l \<noteq> Single) lines)"
  proof -
    have "mset (filter (\<lambda>l. ln_kind l \<noteq> Single) ls) =
          mset (filter (\<lambda>l. ln_kind l = Full) ls) + mset (filter (\<lambda>l. ln_kind l = Left) ls)
          + mset (filter (\<lambda>l. ln_kind l = Right) ls)" for ls :: "line list"
    proof (induction ls)
      case (Cons a ls) then show ?case by (cases "ln_kind a") simp_all
    qed simp
    then show ?thesis by (simp add: ordered_def)
  qed
qed

theorem reading_order_witness:
  "ordered
     [\<lparr>ln_y = 50, ln_x0 = 10, ln_x1 = 200, ln_text = str ''a'', ln_kind = Left\<rparr>,
      \<lparr>ln_y = 10, ln_x0 = 310, ln_x1 = 500, ln_text = str ''b'', ln_kind = Right\<rparr>,
      \<lparr>ln_y = 90, ln_x0 = 100, ln_x1 = 500, ln_text = str ''c'', ln_kind = Full\<rparr>]
   = [\<lparr>ln_y = 90, ln_x0 = 100, ln_x1 = 500, ln_text = str ''c'', ln_kind = Full\<rparr>,
      \<lparr>ln_y = 50, ln_x0 = 10, ln_x1 = 200, ln_text = str ''a'', ln_kind = Left\<rparr>,
      \<lparr>ln_y = 10, ln_x0 = 310, ln_x1 = 500, ln_text = str ''b'', ln_kind = Right\<rparr>]
   \<and> (0::nat) < 2"
  using reading_order [of
     "[\<lparr>ln_y = 50, ln_x0 = 10, ln_x1 = 200, ln_text = str ''a'', ln_kind = Left\<rparr>,
      \<lparr>ln_y = 10, ln_x0 = 310, ln_x1 = 500, ln_text = str ''b'', ln_kind = Right\<rparr>,
      \<lparr>ln_y = 90, ln_x0 = 100, ln_x1 = 500, ln_text = str ''c'', ln_kind = Full\<rparr>]",
     THEN conjunct1, THEN spec, of 0, THEN mp, THEN spec, of 2]
  by (simp add: ordered_def)

section \<open>Gutter splitting\<close>





section \<open>Token conservation\<close>








section \<open>Hyphenation merge\<close>

text \<open>
  Claim C5. When the last output line ends with a hyphen (code point 45) and the next
  text is non-empty and starts with a lower-case character, the merging step replaces the
  last output line by itself without the hyphen followed directly by the next text, and
  the output does not grow. The two texts \<open>...transfor-\<close> and \<open>mation continues...\<close> are
  merged into the one line \<open>...transformation continues...\<close>.
\<close>

theorem hyphenation_merge:
  "(out_lines \<noteq> [] \<and> endswith (last out_lines) 45 \<and> cur \<noteq> [] \<and> islower U (hd cur) \<longrightarrow>
      merge_step U out_lines cur = butlast out_lines @ [butlast (last out_lines) @ cur] \<and>
      length (merge_step U out_lines cur) = length out_lines \<and>
      merge_loop U out_lines (cur # rest) =
        merge_loop U (butlast out_lines @ [butlast (last out_lines) @ cur]) rest) \<and>
   merge_loop ascii [] [str ''...transfor-'', str ''mation continues...'']
     = [str ''...transformation continues...'']"
proof -
  have "merge_loop ascii [] [str ''...transfor-'', str ''mation continues...'']
     = [str ''...transformation continues...'']"
    by (simp add: merge_step_def merge_hyphenation_def endswith_def str_def ascii_def)
  then show ?thesis
    by (auto simp: merge_step_def merge_hyphenation_def Let_def)
qed

theorem hyphenation_merge_witness:
  "endswith (last [str ''intro'', str ''transfor-'']) 45 \<and> islower ascii (hd (str ''mation'')) \<and>
   merge_step ascii [str ''intro'', str ''transfor-''] (str ''mation'')
     = [str ''intro'', str ''transformation'']"
  using hyphenation_merge [of "[str ''intro'', str ''transfor-'']" "str ''mation''" ascii "[]"]
  by (simp add: endswith_def str_def ascii_def)

section \<open>Join decision\<close>

lemma plus_then_iff:
  "plus_then P K s \<longleftrightarrow> (\<exists>xs rest. xs \<noteq> [] \<and> (\<forall>x\<in>set xs. P x) \<and> s = xs @ rest \<and> K rest)"
proof (induction s)
  case Nil
  then show ?case by simp
next
  case (Cons c cs)
  show ?case
  proof
    assume "plus_then P K (c # cs)"
    then have c: "P c" and d: "K cs \<or> plus_then P K cs" by auto
    from d show "\<exists>xs rest. xs \<noteq> [] \<and> (\<forall>x\<in>set xs. P x) \<and> c # cs = xs @ rest \<and> K rest"
    proof
      assume "K cs"
      with c have "[c] \<noteq> [] \<and> (\<forall>x\<in>set [c]. P x) \<and> c # cs = [c] @ cs \<and> K cs" by simp
      then show ?thesis by blast
    next
      assume "plus_then P K cs"
      with Cons.IH obtain xs rest where
        "xs \<noteq> []" "\<forall>x\<in>set xs. P x" "cs = xs @ rest" "K rest" by blast
      with c have "c # xs \<noteq> [] \<and> (\<forall>x\<in>set (c # xs). P x) \<and> c # cs = (c # xs) @ rest \<and> K rest"
        by simp
      then show ?thesis by blast
    qed
  next
    assume "\<exists>xs rest. xs \<noteq> [] \<and> (\<forall>x\<in>set xs. P x) \<and> c # cs = xs @ rest \<and> K rest"
    then obtain xs rest where x: "xs \<noteq> []" "\<forall>x\<in>set xs. P x" "c # cs = xs @ rest" "K rest"
      by blast
    then obtain ys where ys: "xs = c # ys" by (cases xs) auto
    show "plus_then P K (c # cs)"
    proof (cases "ys = []")
      case True
      with x ys show ?thesis by simp
    next
      case False
      with x ys have "\<exists>xs rest. xs \<noteq> [] \<and> (\<forall>x\<in>set xs. P x) \<and> cs = xs @ rest \<and> K rest"
        by auto
      with Cons.IH x ys show ?thesis by simp
    qed
  qed
qed

lemma rstrip_empty_iff: "rstrip U s = [] \<longleftrightarrow> blank U s"
  by (auto simp: rstrip_def blank_def dropWhile_eq_Nil_conv)

lemma bullet_re_iff: "bullet_re U s \<longleftrightarrow> marker_then_space U s"
proof -
  have a: "(case s of [] \<Rightarrow> False | c # cs \<Rightarrow> c \<in> {8226, 45, 8211, 42} \<and> ws1 U cs)
        \<longleftrightarrow> (\<exists>m w rest. s = m # w # rest \<and> m \<in> {8226, 45, 8211, 42} \<and> isspace U w)"
    by (auto simp: ws1_def split: list.splits)
  have b: "(case r of [] \<Rightarrow> False | d # r' \<Rightarrow> d = 46 \<and> ws1 U r')
        \<longleftrightarrow> (\<exists>w rest. r = 46 # w # rest \<and> isspace U w)" for r
    by (auto simp: ws1_def split: list.splits)
  show ?thesis
    unfolding bullet_re_def marker_then_space_def a plus_then_iff b by blast
qed

lemma heading_re_iff: "heading_re U s \<longleftrightarrow> shouty_heading U s"
proof
  assume "heading_re U s"
  then obtain c r where s: "s = c # r" and c: "upper_az c"
    and r: "heading_body U r \<or> (r \<noteq> [] \<and> last r = 10 \<and> heading_body U (butlast r))"
    by (auto simp: heading_re_def split: list.splits)
  from r show "shouty_heading U s"
  proof
    assume "heading_body U r"
    with s c show ?thesis
      unfolding shouty_heading_def heading_body_def list_all_iff by blast
  next
    assume h: "r \<noteq> [] \<and> last r = 10 \<and> heading_body U (butlast r)"
    then have "r = butlast r @ [10]" by (metis append_butlast_last_id)
    with s have "s = c # butlast r @ [10]" by simp
    with h c show ?thesis
      unfolding shouty_heading_def heading_body_def list_all_iff by blast
  qed
next
  assume "shouty_heading U s"
  then obtain c r where c: "upper_az c" and r: "3 \<le> length r" "\<forall>x\<in>set r. upper_az x \<or> isspace U x"
    and s: "s = c # r \<or> s = c # r @ [10]"
    unfolding shouty_heading_def by blast
  from s show "heading_re U s"
  proof
    assume "s = c # r"
    with c r show ?thesis by (simp add: heading_re_def heading_body_def list_all_iff)
  next
    assume "s = c # r @ [10]"
    with c r show ?thesis by (simp add: heading_re_def heading_body_def list_all_iff)
  qed
qed

lemma caption_re_iff: "caption_re U s \<longleftrightarrow> numbered_caption U s"
proof -
  have k: "(case r of [] \<Rightarrow> False | d # x \<Rightarrow> isdecimal U d) \<longleftrightarrow> (\<exists>d rest. r = d # rest \<and> isdecimal U d)"
    for r by (cases r) auto
  have one: "(startswith s p \<and>
        plus_then (isspace U) (\<lambda>r. case r of [] \<Rightarrow> False | d # x \<Rightarrow> isdecimal U d) (drop (length p) s))
     \<longleftrightarrow> (\<exists>ws d rest. ws \<noteq> [] \<and> (\<forall>c\<in>set ws. isspace U c) \<and> isdecimal U d \<and> s = p @ ws @ d # rest)"
    for p
  proof
    assume l: "startswith s p \<and>
        plus_then (isspace U) (\<lambda>r. case r of [] \<Rightarrow> False | d # x \<Rightarrow> isdecimal U d) (drop (length p) s)"
    then have sp: "s = p @ drop (length p) s"
      by (metis append_take_drop_id startswith_def)
    from l obtain ws d rest where
      "ws \<noteq> []" "\<forall>c\<in>set ws. isspace U c" "drop (length p) s = ws @ d # rest" "isdecimal U d"
      unfolding plus_then_iff k by blast
    with sp show "\<exists>ws d rest. ws \<noteq> [] \<and> (\<forall>c\<in>set ws. isspace U c) \<and> isdecimal U d \<and> s = p @ ws @ d # rest"
      by metis
  next
    assume "\<exists>ws d rest. ws \<noteq> [] \<and> (\<forall>c\<in>set ws. isspace U c) \<and> isdecimal U d \<and> s = p @ ws @ d # rest"
    then obtain ws d rest where w: "ws \<noteq> []" "\<forall>c\<in>set ws. isspace U c" "isdecimal U d"
      "s = p @ ws @ d # rest" by blast
    then have "startswith s p" "drop (length p) s = ws @ d # rest"
      by (simp_all add: startswith_def)
    with w show "startswith s p \<and>
        plus_then (isspace U) (\<lambda>r. case r of [] \<Rightarrow> False | d # x \<Rightarrow> isdecimal U d) (drop (length p) s)"
      unfolding plus_then_iff k by blast
  qed
  show ?thesis
    unfolding caption_re_def numbered_caption_def by (simp add: one)
qed

lemma ends_sentence_iff:
  "endswith s 46 \<or> endswith s 33 \<or> endswith s 63 \<or> endswith s 58 \<longleftrightarrow> ends_sentence s"
proof
  assume "endswith s 46 \<or> endswith s 33 \<or> endswith s 63 \<or> endswith s 58"
  then have "s \<noteq> []" "last s \<in> {46, 33, 63, 58}" by (auto simp: endswith_def)
  then have "s = butlast s @ [last s] \<and> last s \<in> {46, 33, 63, 58}" by simp
  then show "ends_sentence s" unfolding ends_sentence_def by blast
next
  assume "ends_sentence s"
  then show "endswith s 46 \<or> endswith s 33 \<or> endswith s 63 \<or> endswith s 58"
    by (auto simp: ends_sentence_def endswith_def)
qed

text \<open>
  Claim C6, as amended. The join decision is positive exactly when none of these holds:
  the previous text is blank; the next text, without its leading whitespace, starts with
  a list marker followed by whitespace; it is a capital letter followed by at least three
  capital letters or whitespace characters; its lower-cased form starts with figure,
  table or box, whitespace and a digit; the previous text, without its trailing
  whitespace, ends with terminal punctuation. When no hyphenation merge applies, the
  merging step joins the two texts with one space at the trimmed seam if the decision is
  positive, and appends the next text as a new output line if not.
\<close>

theorem join_decision:
  "(should_join_with_space U prev nxt \<longleftrightarrow>
      \<not> blank U prev \<and> \<not> marker_then_space U (lstrip U nxt) \<and> \<not> shouty_heading U (lstrip U nxt) \<and>
      \<not> numbered_caption U (lower U (lstrip U nxt)) \<and> \<not> ends_sentence (rstrip U prev)) \<and>
   (out_lines \<noteq> [] \<and> \<not> (endswith (last out_lines) 45 \<and> cur \<noteq> [] \<and> islower U (hd cur)) \<longrightarrow>
      merge_step U out_lines cur =
        (if should_join_with_space U (last out_lines) cur
         then butlast out_lines @ [rstrip U (last out_lines) @ [32] @ lstrip U cur]
         else out_lines @ [cur]))"
proof -
  have "should_join_with_space U prev nxt \<longleftrightarrow>
      \<not> blank U prev \<and> \<not> marker_then_space U (lstrip U nxt) \<and> \<not> shouty_heading U (lstrip U nxt) \<and>
      \<not> numbered_caption U (lower U (lstrip U nxt)) \<and> \<not> ends_sentence (rstrip U prev)"
    unfolding should_join_with_space_def Let_def
    by (simp add: rstrip_empty_iff bullet_re_iff heading_re_iff caption_re_iff
        flip: ends_sentence_iff)
  moreover have "out_lines \<noteq> [] \<and> \<not> (endswith (last out_lines) 45 \<and> cur \<noteq> [] \<and> islower U (hd cur)) \<longrightarrow>
      merge_step U out_lines cur =
        (if should_join_with_space U (last out_lines) cur
         then butlast out_lines @ [rstrip U (last out_lines) @ [32] @ lstrip U cur]
         else out_lines @ [cur])"
    by (simp add: merge_step_def merge_hyphenation_def Let_def)
  ultimately show ?thesis by blast
qed

theorem join_decision_witness:
  "\<not> endswith (last [str ''Jobs are'']) 45 \<and>
   should_join_with_space ascii (str ''Jobs are'') (str ''changing fast.'') \<and>
   merge_step ascii [str ''Jobs are''] (str ''changing fast.'') = [str ''Jobs are changing fast.'']"
  using join_decision [of ascii "str ''Jobs are''" "str ''changing fast.''" "[str ''Jobs are'']"
      "str ''changing fast.''"]
  by (simp add: should_join_with_space_def rstrip_def lstrip_def bullet_re_def heading_re_def
      caption_re_def startswith_def endswith_def ws1_def upper_az_def str_def ascii_def)

text \<open>
  The next text \<open>3.5 percent\<close> starts with digits and a full stop, no hyphenation merge
  applies, and the merging step joins it to the previous text.
\<close>

theorem join_decision_counterexample:
  "\<not> endswith (str ''growth of'') 45 \<and> \<not> blank ascii (str ''growth of'') \<and>
   starts_with_marker ascii (str ''3.5 percent'') \<and>
   merge_step ascii [str ''growth of''] (str ''3.5 percent'') = [str ''growth of 3.5 percent'']"
proof -
  have "str ''3.5 percent'' = [51] @ 46 # str ''5 percent''" by (simp add: str_def)
  moreover have "\<forall>d\<in>set [51::nat]. isdecimal ascii d" by (simp add: ascii_def)
  ultimately have "starts_with_marker ascii (str ''3.5 percent'')"
    unfolding starts_with_marker_def by blast
  moreover have "merge_step ascii [str ''growth of''] (str ''3.5 percent'')
      = [str ''growth of 3.5 percent'']"
    by (simp add: merge_step_def merge_hyphenation_def should_join_with_space_def rstrip_def
        lstrip_def bullet_re_def heading_re_def caption_re_def startswith_def endswith_def
        ws1_def upper_az_def str_def ascii_def)
  moreover have "\<not> endswith (str ''growth of'') 45 \<and> \<not> blank ascii (str ''growth of'')"
    by (simp add: endswith_def blank_def str_def ascii_def)
  ultimately show ?thesis by blast
qed

section \<open>Filter bypass\<close>

text \<open>
  Claim C7, as amended. With the flag off, the texts handed to the paragraph merger are
  the non-empty line texts in sequencer order: a line is dropped only when its text is
  empty. When every line has a non-empty text, all texts are handed on.
\<close>

theorem filter_bypass:
  "filtered U False ls = filter (\<lambda>t. t \<noteq> []) (map ln_text ls) \<and>
   ((\<forall>l\<in>set ls. ln_text l \<noteq> []) \<longrightarrow> filtered U False ls = map ln_text ls)"
proof -
  have a: "filtered U False ls = filter (\<lambda>t. t \<noteq> []) (map ln_text ls)"
    by (induction ls) simp_all
  have "(\<forall>l\<in>set ls. ln_text l \<noteq> []) \<longrightarrow> filter (\<lambda>t. t \<noteq> []) (map ln_text ls) = map ln_text ls"
    by (induction ls) simp_all
  with a show ?thesis by simp
qed

theorem filter_bypass_witness:
  "filtered ascii False
     [\<lparr>ln_y = 10, ln_x0 = 100, ln_x1 = 500, ln_text = str ''17'', ln_kind = Full\<rparr>,
      \<lparr>ln_y = 20, ln_x0 = 10, ln_x1 = 200, ln_text = str ''Jobs'', ln_kind = Left\<rparr>]
   = [str ''17'', str ''Jobs'']"
  using filter_bypass [of ascii
     "[\<lparr>ln_y = 10, ln_x0 = 100, ln_x1 = 500, ln_text = str ''17'', ln_kind = Full\<rparr>,
       \<lparr>ln_y = 20, ln_x0 = 10, ln_x1 = 200, ln_text = str ''Jobs'', ln_kind = Left\<rparr>]"]
  by (simp add: str_def)

text \<open>A line with an empty text is dropped although the flag is off.\<close>

theorem filter_bypass_counterexample:
  "filtered ascii False
     (ordered [\<lparr>ln_y = 10, ln_x0 = 10, ln_x1 = 200, ln_text = [], ln_kind = Left\<rparr>,
               \<lparr>ln_y = 20, ln_x0 = 10, ln_x1 = 200, ln_text = str ''Jobs'', ln_kind = Left\<rparr>])
   \<noteq> map ln_text
     (ordered [\<lparr>ln_y = 10, ln_x0 = 10, ln_x1 = 200, ln_text = [], ln_kind = Left\<rparr>,
               \<lparr>ln_y = 20, ln_x0 = 10, ln_x1 = 200, ln_text = str ''Jobs'', ln_kind = Left\<rparr>])"
  by (simp add: ordered_def str_def)

section \<open>Empty page\<close>

text \<open>
  Claim C8. When the page, after the optional crop, yields no tokens, page
  reconstruction returns a record with the empty text, a line count of 0, and the
  number, width and height of the page; it does so for every tolerance argument.
\<close>

theorem empty_page:
  "cropped crop pg crop_top crop_bottom = Inr p \<Longrightarrow> pg_words p = [] \<Longrightarrow>
   reconstruct_page_text U crop pg y_tol drop_headers_footers crop_top crop_bottom
     = Inr \<lparr> rec_page_number = pg_number pg, rec_width = pg_width pg,
             rec_height = pg_height pg, rec_text = [], rec_line_count = 0 \<rparr>"
  by (simp add: reconstruct_page_text_def words_to_lines_def classify_columns_def ordered_def
      strip_def rstrip_def lstrip_def)

theorem empty_page_witness:
  "reconstruct_page_text ascii box_crop
     \<lparr>pg_number = 3, pg_width = 600, pg_height = 800, pg_words = []\<rparr> (Num 3) True 0 0
   = Inr \<lparr> rec_page_number = 3, rec_width = 600, rec_height = 800, rec_text = [],
           rec_line_count = 0 \<rparr>"
proof -
  have c: "cropped box_crop \<lparr>pg_number = 3, pg_width = 600, pg_height = 800, pg_words = []\<rparr> 0 0
        = Inr \<lparr>pg_number = 3, pg_width = 600, pg_height = 800, pg_words = []\<rparr>"
    by (simp add: cropped_def)
  show ?thesis using empty_page [OF c, of ascii "Num 3" True] by simp
qed

section \<open>Line count and page text\<close>

lemma rstrip_decomp: "rstrip U s @ rev (takeWhile (isspace U) (rev s)) = s"
  by (simp add: rstrip_def flip: rev_append)

lemma set_rstrip: "set (rstrip U s) \<subseteq> set s"
  by (metis rstrip_decomp Un_upper1 set_append)

lemma set_lstrip: "set (lstrip U s) \<subseteq> set s"
  by (simp add: lstrip_def set_dropWhileD subsetI)

lemma lstrip_solid: "solid U t \<Longrightarrow> lstrip U t = t"
  by (cases t) (simp_all add: solid_def lstrip_def)

lemma rstrip_solid: "solid U t \<Longrightarrow> rstrip U t = t"
proof -
  assume s: "solid U t"
  then have "rev t \<noteq> []" "\<not> isspace U (hd (rev t))" by (simp_all add: solid_def hd_rev)
  then have "dropWhile (isspace U) (rev t) = rev t" by (cases "rev t") simp_all
  then show ?thesis by (simp add: rstrip_def)
qed

lemma strip_solid: "solid U t \<Longrightarrow> strip U t = t"
  by (simp add: strip_def lstrip_solid rstrip_solid)

lemma rstrip_last: "rstrip U s \<noteq> [] \<Longrightarrow> \<not> isspace U (last (rstrip U s))"
proof -
  assume "rstrip U s \<noteq> []"
  then have ne: "dropWhile (isspace U) (rev s) \<noteq> []" by (simp add: rstrip_def)
  then have "\<not> isspace U (hd (dropWhile (isspace U) (rev s)))" by (rule hd_dropWhile)
  with ne show ?thesis by (simp add: rstrip_def last_rev)
qed

lemma rstrip_hd: "rstrip U s \<noteq> [] \<Longrightarrow> hd (rstrip U s) = hd s"
  by (metis rstrip_decomp hd_append2)

lemma strip_result: "strip U s = [] \<or> solid U (strip U s)"
proof (cases "strip U s = []")
  case True
  then show ?thesis by simp
next
  case False
  then have l: "lstrip U s \<noteq> []" by (auto simp: strip_def rstrip_def)
  then have "\<not> isspace U (hd (lstrip U s))" unfolding lstrip_def by (rule hd_dropWhile)
  with False have "\<not> isspace U (hd (strip U s))" by (simp add: strip_def rstrip_hd)
  moreover from False have "\<not> isspace U (last (strip U s))" by (simp add: strip_def rstrip_last)
  ultimately show ?thesis using False by (simp add: solid_def)
qed

lemma sub_ws_chars: "c \<in> set (sub_ws U b s) \<Longrightarrow> \<not> isspace U c \<or> c = 32"
  by (induction s arbitrary: b) (auto split: if_splits)

lemma norm_space_chars: "c \<in> set (norm_space U s) \<Longrightarrow> \<not> isspace U c \<or> c = 32"
proof -
  assume "c \<in> set (norm_space U s)"
  then have "c \<in> set (sub_ws U False s)"
    using set_rstrip set_lstrip unfolding norm_space_def strip_def by blast
  then show ?thesis by (rule sub_ws_chars)
qed

text \<open>The texts that reach the merger: non-empty results of \<open>norm_space\<close>.\<close>

lemma collect_Inr: "collect rs = Inr xs \<Longrightarrow> rs = map Inr xs"
proof (induction rs arbitrary: xs)
  case Nil
  then show ?case by simp
next
  case (Cons r rs)
  then show ?case by (cases r) (auto split: sum.splits)
qed

lemma words_to_lines_text:
  assumes "words_to_lines U ws y_tol = Inr lines" "l \<in> set lines"
  shows "\<exists>s. ln_text l = norm_space U s"
proof (cases "ws = []")
  case True
  with assms show ?thesis by (simp add: words_to_lines_def)
next
  case False
  with assms(1) obtain t where "collect (map (line_of_segment U) (page_segments ws t)) = Inr lines"
    by (cases y_tol) (simp_all add: words_to_lines_def)
  then have "map (line_of_segment U) (page_segments ws t) = map Inr lines" by (rule collect_Inr)
  with assms(2) have "Inr l \<in> set (map (line_of_segment U) (page_segments ws t))" by simp
  then obtain seg where "line_of_segment U seg = Inr l" by auto
  then show ?thesis by (cases seg) auto
qed

lemma classify_columns_texts:
  "map ln_text (classify_columns lines w r) = map ln_text lines"
  by (simp add: classify_columns_def Let_def)

lemma set_ordered: "set (ordered ls) \<subseteq> set ls"
  by (auto simp: ordered_def)

lemma length_ordered: "length (ordered ls) \<le> length ls"
proof -
  have "size (mset (ordered ls)) \<le> size (mset ls)"
  proof (rule size_mset_mono)
    have "mset (ordered ls) = filter_mset (\<lambda>l. ln_kind l = Full) (mset ls)
        + (filter_mset (\<lambda>l. ln_kind l = Left) (mset ls)
        + filter_mset (\<lambda>l. ln_kind l = Right) (mset ls))"
      by (simp add: ordered_def)
    also have "\<dots> \<subseteq># mset ls"
      by (intro mset_subset_eqI) (auto simp: count_filter_mset split: if_splits)
    finally show "mset (ordered ls) \<subseteq># mset ls" .
  qed
  then show ?thesis by simp
qed

lemma set_filtered: "t \<in> set (filtered U d ls) \<Longrightarrow> t \<noteq> [] \<and> t \<in> ln_text ` set ls"
  by (induction ls) (auto split: if_splits)

lemma length_filtered: "length (filtered U d ls) \<le> length ls"
  by (induction ls) (auto simp: le_SucI)

lemma merge_step_length: "length (merge_step U out cur) \<le> Suc (length out)"
  by (auto simp: merge_step_def merge_hyphenation_def Let_def)

lemma merge_loop_length: "length (merge_loop U out fs) \<le> length out + length fs"
proof (induction fs arbitrary: out)
  case Nil
  then show ?case by simp
next
  case (Cons cur fs)
  have "length (merge_loop U (merge_step U out cur) fs) \<le> length (merge_step U out cur) + length fs"
    by (rule Cons.IH)
  with merge_step_length [of U out cur] show ?case by simp
qed

lemma solid_glue:
  assumes "solid U a" "solid U b"
  shows "solid U (butlast a @ b)" "solid U (a @ m @ b)"
proof -
  from assms have ne: "a \<noteq> []" "b \<noteq> []" by (simp_all add: solid_def)
  have "hd (butlast a @ b) = (if butlast a = [] then hd b else hd a)"
    using ne by (cases a) (auto simp: hd_append)
  with assms ne show "solid U (butlast a @ b)" by (auto simp: solid_def)
  from assms ne show "solid U (a @ m @ b)" by (simp add: solid_def)
qed

lemma merge_step_solid:
  assumes "\<forall>t\<in>set out. solid U t" "solid U cur"
  shows "\<forall>t\<in>set (merge_step U out cur). solid U t"
proof (cases "out = []")
  case True
  with assms show ?thesis by (simp add: merge_step_def)
next
  case False
  then have l: "solid U (last out)" and b: "\<forall>t\<in>set (butlast out). solid U t"
    using assms(1) by (auto dest: in_set_butlastD)
  have j: "solid U (last out @ 32 # cur)"
    using solid_glue(2) [OF l assms(2), of "[32]"] by simp
  have h: "solid U (butlast (last out) @ cur)"
    by (rule solid_glue(1) [OF l assms(2)])
  show ?thesis
    using False assms b j h
    by (auto simp: merge_step_def merge_hyphenation_def Let_def rstrip_solid [OF l]
        lstrip_solid [OF assms(2)])
qed

lemma merge_loop_solid:
  "\<forall>t\<in>set out. solid U t \<Longrightarrow> \<forall>t\<in>set fs. solid U t \<Longrightarrow> \<forall>t\<in>set (merge_loop U out fs). solid U t"
proof (induction fs arbitrary: out)
  case Nil
  then show ?case by simp
next
  case (Cons cur fs)
  have "\<forall>t\<in>set (merge_step U out cur). solid U t"
    using Cons.prems by (intro merge_step_solid) simp_all
  moreover have "\<forall>t\<in>set fs. solid U t" using Cons.prems(2) by simp
  ultimately have "\<forall>t\<in>set (merge_loop U (merge_step U out cur) fs). solid U t"
    by (rule Cons.IH)
  then show ?case by simp
qed

lemma merge_step_chars:
  assumes "\<forall>t\<in>set out. c \<notin> set t" "c \<notin> set cur" "c \<noteq> 32"
  shows "\<forall>t\<in>set (merge_step U out cur). c \<notin> set t"
proof (cases "out = []")
  case True
  with assms show ?thesis by (simp add: merge_step_def)
next
  case False
  then have l: "c \<notin> set (last out)" and b: "\<forall>t\<in>set (butlast out). c \<notin> set t"
    using assms(1) by (auto dest: in_set_butlastD)
  from l have "c \<notin> set (butlast (last out))" by (auto dest: in_set_butlastD)
  moreover from l have "c \<notin> set (rstrip U (last out))" using set_rstrip by blast
  moreover from assms(2) have "c \<notin> set (lstrip U cur)" using set_lstrip by blast
  ultimately show ?thesis
    using False assms b by (auto simp: merge_step_def merge_hyphenation_def Let_def)
qed

lemma merge_loop_chars:
  "\<forall>t\<in>set out. c \<notin> set t \<Longrightarrow> \<forall>t\<in>set fs. c \<notin> set t \<Longrightarrow> c \<noteq> 32 \<Longrightarrow>
   \<forall>t\<in>set (merge_loop U out fs). c \<notin> set t"
proof (induction fs arbitrary: out)
  case Nil
  then show ?case by simp
next
  case (Cons cur fs)
  have "\<forall>t\<in>set (merge_step U out cur). c \<notin> set t"
    using Cons.prems by (intro merge_step_chars) simp_all
  moreover have "\<forall>t\<in>set fs. c \<notin> set t" using Cons.prems(2) by simp
  ultimately have "\<forall>t\<in>set (merge_loop U (merge_step U out cur) fs). c \<notin> set t"
    using Cons.prems(3) by (intro Cons.IH)
  then show ?case by simp
qed

lemma join_solid: "out \<noteq> [] \<Longrightarrow> \<forall>t\<in>set out. solid U t \<Longrightarrow> solid U (join sep out)"
proof (induction sep out rule: join.induct)
  case (3 sep x y ys)
  then have "solid U (join sep (y # ys))" "solid U x" by simp_all
  then show ?case by (simp add: solid_glue(2))
qed simp_all

lemma strip_join: "\<forall>t\<in>set out. solid U t \<Longrightarrow> strip U (join sep out) = join sep out"
proof (cases "out = []")
  case True
  then show ?thesis by (simp add: strip_def rstrip_def lstrip_def)
next
  case False
  assume "\<forall>t\<in>set out. solid U t"
  with False show ?thesis by (simp add: strip_solid join_solid)
qed

lemma count_join_sep:
  "out \<noteq> [] \<Longrightarrow> \<forall>t\<in>set out. c \<notin> set t \<Longrightarrow> sep = [c] \<Longrightarrow>
   Suc (count_list (join sep out) c) = length out"
  by (induction sep out rule: join.induct) simp_all

lemma count_join:
  "out \<noteq> [] \<Longrightarrow> \<forall>t\<in>set out. c \<notin> set t \<Longrightarrow> Suc (count_list (join [c] out) c) = length out"
  by (simp add: count_join_sep)

lemma merger_input_solid:
  assumes "words_to_lines U ws y_tol = Inr lines"
    "t \<in> set (filtered U d (ordered (classify_columns lines w r)))"
  shows "solid U t \<and> (\<forall>c. isspace U c \<and> c \<noteq> 32 \<longrightarrow> c \<notin> set t)"
proof -
  from set_filtered [OF assms(2)] have ne: "t \<noteq> []"
    and "t \<in> ln_text ` set (ordered (classify_columns lines w r))" by simp_all
  then have "t \<in> set (map ln_text (classify_columns lines w r))"
    using set_ordered by fastforce
  then have "t \<in> ln_text ` set lines" by (simp add: classify_columns_texts)
  then obtain s where t: "t = norm_space U s" using words_to_lines_text [OF assms(1)] by auto
  from ne strip_result [of U "sub_ws U False s"] have "solid U t"
    by (simp add: t norm_space_def)
  moreover have "\<forall>c. isspace U c \<and> c \<noteq> 32 \<longrightarrow> c \<notin> set t"
    using norm_space_chars [of _ U s] by (auto simp: t)
  ultimately show ?thesis by simp
qed

text \<open>
  Claim C10. When the crop and the line building succeed, page reconstruction returns a
  record whose line count is the number of strings that the paragraph merger leaves, and
  whose text is exactly those strings joined by newlines. That number is at most the
  number of lines built from the tokens, and, newline being whitespace, it is one more
  than the number of newlines in the text when the text has any string at all.
\<close>

theorem line_count_semantics:
  "cropped crop pg crop_top crop_bottom = Inr p \<Longrightarrow>
   words_to_lines U (pg_words p) y_tol = Inr lines \<Longrightarrow>
   \<exists>r. reconstruct_page_text U crop pg y_tol drop_headers_footers crop_top crop_bottom = Inr r \<and>
       (let out_lines = merge_loop U []
              (filtered U drop_headers_footers (ordered (classify_columns lines (pg_width p) 0.5)))
        in rec_line_count r = length out_lines \<and>
           rec_text r = join [10] out_lines \<and>
           length out_lines \<le> length lines \<and>
           (isspace U 10 \<and> out_lines \<noteq> [] \<longrightarrow> Suc (count_list (rec_text r) 10) = length out_lines))"
proof -
  assume c: "cropped crop pg crop_top crop_bottom = Inr p"
    and w: "words_to_lines U (pg_words p) y_tol = Inr lines"
  define fs where
    "fs = filtered U drop_headers_footers (ordered (classify_columns lines (pg_width p) 0.5))"
  define out where "out = merge_loop U [] fs"
  have fs: "\<forall>t\<in>set fs. solid U t"
    and nl: "isspace U 10 \<Longrightarrow> \<forall>t\<in>set fs. 10 \<notin> set t"
    using merger_input_solid [OF w] unfolding fs_def by auto
  have solid: "\<forall>t\<in>set out. solid U t"
    unfolding out_def by (rule merge_loop_solid) (simp_all add: fs)
  have joined: "strip U (join [10] out) = join [10] out"
    by (rule strip_join [OF solid])
  have "length out \<le> length fs"
    using merge_loop_length [of U "[]" fs] by (simp add: out_def)
  also have "length fs \<le> length (ordered (classify_columns lines (pg_width p) 0.5))"
    unfolding fs_def by (rule length_filtered)
  also have "\<dots> \<le> length (classify_columns lines (pg_width p) 0.5)" by (rule length_ordered)
  also have "\<dots> = length lines" by (simp add: classify_columns_def Let_def)
  finally have le: "length out \<le> length lines" by simp
  have cnt: "Suc (count_list (join [10] out) 10) = length out" if "isspace U 10" "out \<noteq> []"
  proof (rule count_join [OF that(2)])
    show "\<forall>t\<in>set out. 10 \<notin> set t"
      unfolding out_def by (rule merge_loop_chars) (simp_all add: nl that(1))
  qed
  show ?thesis
    using joined le cnt unfolding out_def fs_def
    by (simp add: reconstruct_page_text_def c w Let_def)
qed

theorem line_count_semantics_witness:
  "\<exists>r. reconstruct_page_text ascii box_crop
          \<lparr>pg_number = 1, pg_width = 600, pg_height = 800,
           pg_words = [\<lparr>w_text = str ''mation'', w_x0 = 50, w_x1 = 150, w_top = 30\<rparr>,
                       \<lparr>w_text = str ''transfor-'', w_x0 = 50, w_x1 = 150, w_top = 10\<rparr>]\<rparr>
          (Num 3) False 0 0 = Inr r \<and>
       rec_line_count r = 1 \<and> rec_text r = str ''transformation'' \<and>
       length [\<lparr>ln_y = 10, ln_x0 = 50, ln_x1 = 150, ln_text = str ''transfor-'', ln_kind = Single\<rparr>,
               \<lparr>ln_y = 30, ln_x0 = 50, ln_x1 = 150, ln_text = str ''mation'', ln_kind = Single\<rparr>] = 2"
proof -
  let ?pg = "\<lparr>pg_number = 1, pg_width = 600, pg_height = 800,
           pg_words = [\<lparr>w_text = str ''mation'', w_x0 = 50, w_x1 = 150, w_top = 30\<rparr>,
                       \<lparr>w_text = str ''transfor-'', w_x0 = 50, w_x1 = 150, w_top = 10\<rparr>]\<rparr>"
  let ?lines = "[\<lparr>ln_y = 10, ln_x0 = 50, ln_x1 = 150, ln_text = str ''transfor-'', ln_kind = Single\<rparr>,
               \<lparr>ln_y = 30, ln_x0 = 50, ln_x1 = 150, ln_text = str ''mation'', ln_kind = Single\<rparr>]"
  have c: "cropped box_crop ?pg 0 0 = Inr ?pg" by (simp add: cropped_def)
  have w: "words_to_lines ascii (pg_words ?pg) (Num 3) = Inr ?lines"
    by (simp add: words_to_lines_def page_segments_def group_rows_def split_by_gutter_gap_def
        norm_space_def strip_def rstrip_def lstrip_def str_def ascii_def)
  have m: "merge_loop ascii [] (filtered ascii False (ordered (classify_columns ?lines (pg_width ?pg) 0.5)))
        = [str ''transformation'']"
    by (simp add: classify_columns_def ordered_def merge_step_def merge_hyphenation_def
        endswith_def str_def ascii_def)
  show ?thesis
    using line_count_semantics [OF c w, of False] unfolding m by (fastforce simp: Let_def)
qed

section \<open>Configuration errors\<close>











end
